theory Spec2Isabelle
  imports Main
begin

section \<open>Strings, as the interpreter of \<^verbatim>\<open>files/ini_file.py\<close> has them\<close>

text \<open>
  The module is a Python 2 program (\<^verbatim>\<open>#!/usr/bin/python\<close>, Ansible 2015): a \<^verbatim>\<open>str\<close> is a
  sequence of bytes, which is what \<^typ>\<open>string\<close> is. A file opened with \<^verbatim>\<open>open(path)\<close> is
  read without any translation of line ends, \<^verbatim>\<open>str.strip()\<close> and the class \<^verbatim>\<open>\s\<close> of
  \<^verbatim>\<open>re\<close> know the six ASCII white-space bytes, and \<^verbatim>\<open>.\<close> is every byte but the line feed.
\<close>

abbreviation NL :: char where
  "NL \<equiv> CHR 0x0A"

definition isspace :: "char \<Rightarrow> bool" where
  "isspace c \<longleftrightarrow>
     c = CHR 0x20 \<or> c = CHR 0x09 \<or> c = CHR 0x0A \<or> c = CHR 0x0B \<or> c = CHR 0x0C \<or> c = CHR 0x0D"

definition lstrip :: "string \<Rightarrow> string" where
  "lstrip s = dropWhile isspace s"

definition rstrip :: "string \<Rightarrow> string" where
  "rstrip s = rev (dropWhile isspace (rev s))"

definition strip :: "string \<Rightarrow> string" where
  "strip s = rstrip (lstrip s)"

definition startswith :: "string \<Rightarrow> string \<Rightarrow> bool" where
  "startswith s p \<longleftrightarrow> take (length p) s = p"

text \<open>\<^verbatim>\<open>"%s" % x\<close> for \<^verbatim>\<open>x\<close> a \<^verbatim>\<open>str\<close> or \<^verbatim>\<open>None\<close>.\<close>

fun pystr :: "string option \<Rightarrow> string" where
  "pystr None = ''None''"
| "pystr (Some s) = s"

text \<open>
  A \<^verbatim>\<open>str\<close> given to \<^verbatim>\<open>list.extend\<close> or assigned to a slice of a list is iterated: the list
  receives one element for each character of the string.
\<close>

definition chars :: "string \<Rightarrow> string list" where
  "chars s = map (\<lambda>c. [c]) s"

text \<open>\<^verbatim>\<open>xs[i:i] = s\<close>, with \<^verbatim>\<open>s\<close> a \<^verbatim>\<open>str\<close>; a slice index beyond the end means the end.\<close>

definition splice :: "nat \<Rightarrow> string \<Rightarrow> string list \<Rightarrow> string list" where
  "splice i s xs = take i xs @ chars s @ drop i xs"

text \<open>\<^verbatim>\<open>f.writelines(xs)\<close> writes the strings of \<^verbatim>\<open>xs\<close> one after the other.\<close>

definition writelines :: "string list \<Rightarrow> string" where
  "writelines xs = concat xs"

text \<open>
  \<^verbatim>\<open>f.readlines()\<close>: the content cut after each line feed; every line keeps its line feed,
  the last one has none when the content does not end with one.
\<close>

fun readlines :: "string \<Rightarrow> string list" where
  "readlines [] = []"
| "readlines (c # cs) =
     (if c = NL then [c] # readlines cs
      else (case readlines cs of
              [] \<Rightarrow> [[c]]
            | l # ls \<Rightarrow> (c # l) # ls))"

section \<open>The two regular expressions\<close>

text \<open>
  \<^verbatim>\<open>rx_option = re.compile('^([^\s=]+)\s*=\s*(.*)')\<close>, used through \<^verbatim>\<open>match\<close> and
  \<^verbatim>\<open>group(1, 2)\<close>. Group 1 is the longest run of bytes that are neither white space nor
  \<^verbatim>\<open>=\<close>: a shorter run is followed by a byte of the run, which neither \<^verbatim>\<open>\s*\<close> nor
  \<^verbatim>\<open>=\<close> accepts, so backtracking finds nothing more. For the same reason each \<^verbatim>\<open>\s*\<close>
  takes all the white space there is, and group 2 runs to the first line feed.
\<close>

definition keychar :: "char \<Rightarrow> bool" where
  "keychar c \<longleftrightarrow> \<not> isspace c \<and> c \<noteq> CHR ''=''"

definition rx_option_match :: "string \<Rightarrow> (string \<times> string) option" where
  "rx_option_match s =
     (let opt = takeWhile keychar s in
      if opt = [] then None
      else (case dropWhile isspace (dropWhile keychar s) of
              [] \<Rightarrow> None
            | c # r \<Rightarrow>
                if c = CHR ''='' then Some (opt, takeWhile (\<lambda>c. c \<noteq> NL) (dropWhile isspace r))
                else None))"

text \<open>
  \<^verbatim>\<open>rx_section = re.compile('^\[([^\]]+)\]')\<close>, used through \<^verbatim>\<open>match\<close> and \<^verbatim>\<open>group(1)\<close>:
  an opening bracket, the longest non-empty run of bytes other than the closing bracket,
  and the closing bracket.
\<close>

definition rx_section_match :: "string \<Rightarrow> string option" where
  "rx_section_match s =
     (case s of
        [] \<Rightarrow> None
      | c # r \<Rightarrow>
          if c \<noteq> CHR ''['' then None
          else if takeWhile (\<lambda>c. c \<noteq> CHR '']'') r = [] \<or> dropWhile (\<lambda>c. c \<noteq> CHR '']'') r = []
          then None
          else Some (takeWhile (\<lambda>c. c \<noteq> CHR '']'') r))"

section \<open>The scans of \<^verbatim>\<open>IniFile\<close>\<close>

text \<open>
  \<^verbatim>\<open>get_option\<close>, \<^verbatim>\<open>set_option\<close> and \<^verbatim>\<open>del_option\<close> run the same chain of tests on
  \<^verbatim>\<open>self.lines[lineno].strip()\<close>: empty, then \<^verbatim>\<open>#\<close> or \<^verbatim>\<open>;\<close> in front, then
  \<^verbatim>\<open>rx_option\<close>, then \<^verbatim>\<open>rx_section\<close>. \<open>classify\<close> is that chain, in that order.
\<close>

datatype line_kind = Blank | Comment | Opt string string | Header string | Other

definition classify :: "string \<Rightarrow> line_kind" where
  "classify raw =
     (let line = strip raw in
      if length line = 0 then Blank
      else if startswith line ''#'' \<or> startswith line '';'' then Comment
      else (case rx_option_match line of
              Some (opt, val) \<Rightarrow> Opt opt val
            | None \<Rightarrow>
                (case rx_section_match line of
                   Some name \<Rightarrow> Header name
                 | None \<Rightarrow> Other)))"

text \<open>
  The formatted lines: \<^verbatim>\<open>"%s = %s\n" % (option, value)\<close> and \<^verbatim>\<open>"[%s]\n" % section\<close>.
\<close>

definition option_line :: "string \<Rightarrow> string \<Rightarrow> string" where
  "option_line option val = option @ '' = '' @ val @ [NL]"

definition section_line :: "string option \<Rightarrow> string" where
  "section_line section = ''['' @ pystr section @ '']'' @ [NL]"

subsection \<open>\<^verbatim>\<open>get_option\<close>\<close>

text \<open>
  The loop of \<^verbatim>\<open>get_option\<close> over the lines that remain, with \<^verbatim>\<open>cur_section\<close>. Falling
  off the end of the method returns \<^verbatim>\<open>None\<close>. The method assigns to nothing but its
  locals, so the lines it returns with are the lines it was called with.
\<close>

fun get_scan :: "string option \<Rightarrow> string \<Rightarrow> string option \<Rightarrow> string list \<Rightarrow> string option" where
  "get_scan section option cur_section [] = None"
| "get_scan section option cur_section (raw # rest) =
     (case classify raw of
        Opt opt val \<Rightarrow>
          if cur_section = section \<and> opt = option then Some val
          else get_scan section option cur_section rest
      | Header name \<Rightarrow> get_scan section option (Some name) rest
      | _ \<Rightarrow> get_scan section option cur_section rest)"

definition get_option :: "string option \<Rightarrow> string \<Rightarrow> string list \<Rightarrow> string option \<times> string list" where
  "get_option section option lines = (get_scan section option None lines, lines)"

subsection \<open>\<^verbatim>\<open>set_option\<close>\<close>

text \<open>
  The loop of \<^verbatim>\<open>set_option\<close> changes \<^verbatim>\<open>self.lines\<close> only where it returns at once, so it
  is a scan that says how the loop was left: at an option line to replace, at a section
  header met in the wanted section (with \<^verbatim>\<open>last_opt_line\<close>), or at the end of the lines
  (with \<^verbatim>\<open>cur_section\<close>, \<^verbatim>\<open>lineno\<close> and \<^verbatim>\<open>last_opt_line\<close>). Its argument \<open>i\<close> is the
  index of the first line that remains; after the loop \<^verbatim>\<open>lineno\<close> is the last index
  visited, or the \<open>0\<close> it was initialised with when there is no line.
\<close>

datatype set_exit = Replace nat | LeaveSection nat | EndOfLines "string option" nat nat

fun set_scan ::
  "string option \<Rightarrow> string \<Rightarrow> nat \<Rightarrow> string option \<Rightarrow> nat \<Rightarrow> string list \<Rightarrow> set_exit" where
  "set_scan section option i cur_section last_opt_line [] =
     EndOfLines cur_section (if i = 0 then 0 else i - 1) last_opt_line"
| "set_scan section option i cur_section last_opt_line (raw # rest) =
     (case classify raw of
        Blank \<Rightarrow> set_scan section option (Suc i) cur_section last_opt_line rest
      | Comment \<Rightarrow> set_scan section option (Suc i) cur_section i rest
      | Opt opt val \<Rightarrow>
          if cur_section = section \<and> opt = option then Replace i
          else set_scan section option (Suc i) cur_section i rest
      | Header name \<Rightarrow>
          if cur_section = section then LeaveSection last_opt_line
          else set_scan section option (Suc i) (Some name) i rest
      | Other \<Rightarrow> set_scan section option (Suc i) cur_section last_opt_line rest)"

definition set_option :: "string option \<Rightarrow> string \<Rightarrow> string \<Rightarrow> string list \<Rightarrow> string list" where
  "set_option section option val lines =
     (case set_scan section option 0 None 0 lines of
        Replace lineno \<Rightarrow> lines[lineno := option_line option val]
      | LeaveSection last_opt_line \<Rightarrow>
          (let ins_index = (if last_opt_line > 0 then last_opt_line + 1 else 0)
           in splice ins_index (option_line option val) lines)
      | EndOfLines cur_section lineno last_opt_line \<Rightarrow>
          if cur_section \<noteq> section then
            lines
            @ (if lineno > 0 \<and> int lineno - int last_opt_line < 2 then chars [NL] else [])
            @ chars (section_line section)
            @ chars (option_line option val)
          else splice (last_opt_line + 1) (option_line option val) lines)"

subsection \<open>\<^verbatim>\<open>del_option\<close>\<close>

fun del_option_scan ::
  "string option \<Rightarrow> string \<Rightarrow> nat \<Rightarrow> string option \<Rightarrow> string list \<Rightarrow> nat option" where
  "del_option_scan section option i cur_section [] = None"
| "del_option_scan section option i cur_section (raw # rest) =
     (case classify raw of
        Opt opt val \<Rightarrow>
          if cur_section = section \<and> opt = option then Some i
          else del_option_scan section option (Suc i) cur_section rest
      | Header name \<Rightarrow> del_option_scan section option (Suc i) (Some name) rest
      | _ \<Rightarrow> del_option_scan section option (Suc i) cur_section rest)"

definition del_option :: "string option \<Rightarrow> string \<Rightarrow> string list \<Rightarrow> bool \<times> string list" where
  "del_option section option lines =
     (case del_option_scan section option 0 None lines of
        Some lineno \<Rightarrow> (True, take lineno lines @ drop (Suc lineno) lines)
      | None \<Rightarrow> (False, lines))"

subsection \<open>\<^verbatim>\<open>del_section\<close>\<close>

text \<open>
  \<^verbatim>\<open>del_section\<close> tests \<^verbatim>\<open>rx_section\<close> alone, on every stripped line. Its loop is left
  either at the header that follows the wanted one, with the range to delete, or at the
  end of the lines, with \<^verbatim>\<open>section_start\<close>.
\<close>

datatype del_exit = DelRange nat nat | EndOfScan "nat option"

fun del_section_scan :: "string option \<Rightarrow> nat \<Rightarrow> nat option \<Rightarrow> string list \<Rightarrow> del_exit" where
  "del_section_scan section i section_start [] = EndOfScan section_start"
| "del_section_scan section i section_start (raw # rest) =
     (case rx_section_match (strip raw) of
        Some name \<Rightarrow>
          if Some name = section then del_section_scan section (Suc i) (Some i) rest
          else (case section_start of
                  Some start \<Rightarrow> DelRange start i
                | None \<Rightarrow> del_section_scan section (Suc i) section_start rest)
      | None \<Rightarrow> del_section_scan section (Suc i) section_start rest)"

definition del_section :: "string option \<Rightarrow> string list \<Rightarrow> bool \<times> string list" where
  "del_section section lines =
     (case del_section_scan section 0 None lines of
        DelRange start lineno \<Rightarrow> (True, take start lines @ drop lineno lines)
      | EndOfScan (Some start) \<Rightarrow> (True, take start lines)
      | EndOfScan None \<Rightarrow> (False, lines))"

section \<open>Loading, saving and \<^verbatim>\<open>do_ini\<close>\<close>

text \<open>
  The storage is a map from the paths of the regular files to their content.
  \<^verbatim>\<open>IniFile.__init__\<close> reads the lines of \<^verbatim>\<open>filepath\<close> when \<^verbatim>\<open>os.path.isfile\<close> says it is
  a file, and starts with no line otherwise.
\<close>

type_synonym filesystem = "string \<rightharpoonup> string"

record IniFile =
  filepath :: string
  lines :: "string list"

definition IniFile_init :: "filesystem \<Rightarrow> string \<Rightarrow> IniFile" where
  "IniFile_init fs path =
     \<lparr>filepath = path,
      lines = (case fs path of Some content \<Rightarrow> readlines content | None \<Rightarrow> [])\<rparr>"

text \<open>
  \<^verbatim>\<open>save\<close> is \<^verbatim>\<open>f = open(filepath)\<close>, then \<^verbatim>\<open>f.writelines(self.lines)\<close>. The name
  \<^verbatim>\<open>filepath\<close> is not \<^verbatim>\<open>self.filepath\<close>: it is no local of \<^verbatim>\<open>save\<close>, so it is looked up
  among the names of the module. The file binds no such name at its top level; what
  \<^verbatim>\<open>from ansible.module_utils.basic import *\<close> binds is outside this file, so the binding
  of that name is the parameter \<open>global_filepath\<close> (\<open>None\<close>: unbound). An unbound name
  raises \<^verbatim>\<open>NameError\<close>. A bound one is opened in the default mode, for reading: a missing
  file raises \<^verbatim>\<open>IOError\<close>, and so does \<^verbatim>\<open>writelines\<close> on a file that is open for
  reading. No path of \<^verbatim>\<open>save\<close> writes.
\<close>

datatype py_error = NameError | IOError

definition save :: "string option \<Rightarrow> IniFile \<Rightarrow> filesystem \<Rightarrow> py_error + filesystem" where
  "save global_filepath self fs =
     (case global_filepath of
        None \<Rightarrow> Inl NameError
      | Some p \<Rightarrow>
          (case fs p of
             None \<Rightarrow> Inl IOError
           | Some content \<Rightarrow> Inl IOError))"

text \<open>
  \<^verbatim>\<open>do_ini\<close>. Its arguments \<^verbatim>\<open>section\<close>, \<^verbatim>\<open>option\<close> and \<^verbatim>\<open>value\<close> are strings or \<^verbatim>\<open>None\<close>,
  and \<^verbatim>\<open>if option\<close> holds of a string that is not empty. \<^verbatim>\<open>set_option\<close> and
  \<^verbatim>\<open>del_option\<close> are reached with such an \<^verbatim>\<open>option\<close> only; \<^verbatim>\<open>set_option\<close> uses its
  \<^verbatim>\<open>value\<close> under \<^verbatim>\<open>%s\<close> alone, which is \<open>pystr\<close>. \<^verbatim>\<open>module.fail_json\<close> ends the run
  with its message; \<^verbatim>\<open>module.backup_local\<close> copies the file elsewhere and is left out.
\<close>

datatype outcome = Returned bool | FailJson string

fun truthy :: "string option \<Rightarrow> bool" where
  "truthy None = False"
| "truthy (Some s) = (s \<noteq> [])"

definition do_ini ::
  "string option \<Rightarrow> bool \<Rightarrow> filesystem \<Rightarrow> string \<Rightarrow> string option \<Rightarrow> string option \<Rightarrow>
   string option \<Rightarrow> string \<Rightarrow> outcome" where
  "do_ini global_filepath check_mode fs filename section option val state =
     (let ini = IniFile_init fs filename;
          (changed1, lines1) =
            (case option of
               Some opt \<Rightarrow>
                 if state = ''present'' \<and> opt \<noteq> [] \<and> val \<noteq> fst (get_option section opt (lines ini))
                 then (True, set_option section opt (pystr val) (lines ini))
                 else (False, lines ini)
             | None \<Rightarrow> (False, lines ini));
          (changed2, lines2) =
            (if state = ''absent'' then
               (if truthy section \<and> \<not> truthy option then del_section section lines1
                else (case option of
                        Some opt \<Rightarrow>
                          if opt \<noteq> [] then del_option section opt lines1
                          else (changed1, lines1)
                      | None \<Rightarrow> (changed1, lines1)))
             else (changed1, lines1))
      in if changed2 \<and> \<not> check_mode then
           (case save global_filepath (ini\<lparr>lines := lines2\<rparr>) fs of
              Inl e \<Rightarrow> FailJson (''Can'' @ [CHR 0x27] @ ''t create '' @ filename)
            | Inr fs' \<Rightarrow> Returned changed2)
         else Returned changed2)"

section \<open>Notions the properties are stated with\<close>

text \<open>
  The names of the section headers, in the order of the lines: as \<^verbatim>\<open>del_section\<close> finds
  them (\<^verbatim>\<open>rx_section\<close> on the stripped line), and as the three scans find them (a line
  that \<open>classify\<close> makes a \<open>Header\<close>).
\<close>

definition header_name :: "string \<Rightarrow> string option" where
  "header_name raw = rx_section_match (strip raw)"

definition section_names :: "string list \<Rightarrow> string list" where
  "section_names ls = List.map_filter header_name ls"

definition scan_header :: "string \<Rightarrow> string option" where
  "scan_header raw = (case classify raw of Header name \<Rightarrow> Some name | _ \<Rightarrow> None)"

definition scan_names :: "string list \<Rightarrow> string list" where
  "scan_names ls = List.map_filter scan_header ls"

text \<open>
  The current section after a run of lines, starting from \<open>cur\<close>: the last header the
  scans saw.
\<close>

fun section_after :: "string option \<Rightarrow> string list \<Rightarrow> string option" where
  "section_after cur [] = cur"
| "section_after cur (raw # rest) =
     (case classify raw of
        Header name \<Rightarrow> section_after (Some name) rest
      | _ \<Rightarrow> section_after cur rest)"

text \<open>Line \<open>i\<close> is an option line of key \<open>option\<close> in section \<open>section\<close>.\<close>

definition option_at :: "string option \<Rightarrow> string \<Rightarrow> string list \<Rightarrow> nat \<Rightarrow> bool" where
  "option_at section option ls i \<longleftrightarrow>
     i < length ls
     \<and> (case classify (ls ! i) of Opt opt val \<Rightarrow> opt = option | _ \<Rightarrow> False)
     \<and> section_after None (take i ls) = section"

text \<open>
  A line that \<^verbatim>\<open>set_option\<close> records in \<^verbatim>\<open>last_opt_line\<close>: a comment, an option or a
  header. \<open>last_recorded\<close> is the index of the last such line, \<open>0\<close> when there is none.
\<close>

definition recorded :: "string \<Rightarrow> bool" where
  "recorded raw = (case classify raw of Blank \<Rightarrow> False | Other \<Rightarrow> False | _ \<Rightarrow> True)"

fun last_recorded_from :: "nat \<Rightarrow> nat \<Rightarrow> string list \<Rightarrow> nat" where
  "last_recorded_from i seen [] = seen"
| "last_recorded_from i seen (raw # rest) =
     last_recorded_from (Suc i) (if recorded raw then i else seen) rest"

definition last_recorded :: "string list \<Rightarrow> nat" where
  "last_recorded ls = last_recorded_from 0 0 ls"


section \<open>Facts about the scans that several properties use\<close>

lemma classify_Opt_rx:
  "classify raw = Opt opt val \<Longrightarrow> rx_option_match (strip raw) = Some (opt, val)"
  by (auto simp: classify_def Let_def split: if_splits option.splits)

lemma scan_names_Nil: "scan_names [] = []"
  by (simp add: scan_names_def)

lemma scan_names_Cons:
  "scan_names (raw # rest) =
     (case classify raw of Header n \<Rightarrow> n # scan_names rest | _ \<Rightarrow> scan_names rest)"
  by (simp add: scan_names_def scan_header_def List.map_filter_simps split: line_kind.splits)

lemma set_scan_Replace_bound:
  "set_scan section option i cur seen ls = Replace k \<Longrightarrow> i \<le> k \<and> k < i + length ls"
proof (induction ls arbitrary: i cur seen)
  case Nil
  then show ?case by simp
next
  case (Cons raw rest)
  show ?case
  proof (cases "classify raw")
    case Blank
    with Cons.prems have "set_scan section option (Suc i) cur seen rest = Replace k" by simp
    from Cons.IH [OF this] show ?thesis by simp
  next
    case Comment
    with Cons.prems have "set_scan section option (Suc i) cur i rest = Replace k" by simp
    from Cons.IH [OF this] show ?thesis by simp
  next
    case (Opt opt val)
    show ?thesis
    proof (cases "cur = section \<and> opt = option")
      case True
      with Opt Cons.prems show ?thesis by simp
    next
      case False
      with Opt Cons.prems have "set_scan section option (Suc i) cur i rest = Replace k" by auto
      from Cons.IH [OF this] show ?thesis by simp
    qed
  next
    case (Header name)
    with Cons.prems have "set_scan section option (Suc i) (Some name) i rest = Replace k"
      by (auto split: if_splits)
    from Cons.IH [OF this] show ?thesis by simp
  next
    case Other
    with Cons.prems have "set_scan section option (Suc i) cur seen rest = Replace k" by simp
    from Cons.IH [OF this] show ?thesis by simp
  qed
qed

section \<open>Round trip of loading and writing\<close>

lemma readlines_concat: "concat (readlines s) = s"
  by (induction s) (auto split: list.splits)

text \<open>
  C4. For every existing file, the lines that \<^verbatim>\<open>IniFile.__init__\<close> loads, written back
  with \<^verbatim>\<open>writelines\<close> and no edit in between, are the bytes of the file: comments, blank
  lines and spacing included.
\<close>

theorem load_serialize_roundtrip:
  assumes "fs path = Some content"
  shows "writelines (lines (IniFile_init fs path)) = content"
  using assms by (simp add: IniFile_init_def writelines_def readlines_concat)

theorem load_serialize_roundtrip_witness:
  "writelines (lines (IniFile_init [''/etc/conf'' \<mapsto> ''# c'' @ [NL] @ [NL] @ ''[a]'' @ [NL] @ ''x  =1 '']
     ''/etc/conf'')) = ''# c'' @ [NL] @ [NL] @ ''[a]'' @ [NL] @ ''x  =1 ''"
  using load_serialize_roundtrip
    [of "[''/etc/conf'' \<mapsto> ''# c'' @ [NL] @ [NL] @ ''[a]'' @ [NL] @ ''x  =1 '']" "''/etc/conf''"
        "''# c'' @ [NL] @ [NL] @ ''[a]'' @ [NL] @ ''x  =1 ''"]
  by simp

section \<open>\<^verbatim>\<open>del_section\<close> and the section that has no header\<close>

lemma del_section_scan_None: "del_section_scan None i None ls = EndOfScan None"
  by (induction ls arbitrary: i) (auto split: option.splits)

text \<open>
  C10. \<^verbatim>\<open>del_section(None)\<close> returns false and leaves every document as it is: the name a
  header captures is a string, never \<^verbatim>\<open>None\<close>, so the lines before the first header cannot
  be deleted through \<^verbatim>\<open>del_section\<close>.
\<close>

theorem del_section_None: "del_section None ls = (False, ls)"
  by (simp add: del_section_def del_section_scan_None)

section \<open>\<^verbatim>\<open>save\<close>\<close>

text \<open>
  C2. The claim is that \<^verbatim>\<open>save\<close> succeeds and overwrites the file the \<^verbatim>\<open>IniFile\<close> was made
  for. The code does not: whatever the free name \<^verbatim>\<open>filepath\<close> is bound to, \<^verbatim>\<open>save\<close> raises
  and writes nothing.
\<close>

theorem save_always_raises:
  "save global_filepath self fs = Inl NameError \<or> save global_filepath self fs = Inl IOError"
  by (simp add: save_def split: option.splits)

text \<open>
  So a run of \<^verbatim>\<open>do_ini\<close> outside check mode never returns that it changed the file: when
  an operation changed the lines, the \<^verbatim>\<open>except\<close> around \<^verbatim>\<open>ini.save()\<close> ends it with the
  message of \<^verbatim>\<open>fail_json\<close>, as on the first example of the module's documentation.
\<close>

lemma do_ini_never_saves:
  "do_ini global_filepath False fs filename section option val state \<noteq> Returned True"
  by (auto simp: do_ini_def Let_def save_def split: prod.splits option.splits sum.splits)

lemma do_ini_example:
  "do_ini None False [''/etc/conf'' \<mapsto> ''[drinks]'' @ [NL] @ ''fav = tea'' @ [NL]] ''/etc/conf''
     (Some ''drinks'') (Some ''fav'') (Some ''lemonade'') ''present''
   = FailJson (''Can'' @ [CHR 0x27] @ ''t create /etc/conf'')"
  by code_simp

section \<open>The scope of \<^verbatim>\<open>del_section\<close>\<close>

lemma section_names_Nil: "section_names [] = []"
  by (simp add: section_names_def)

lemma section_names_Cons:
  "section_names (raw # rest) =
     (case header_name raw of Some n \<Rightarrow> n # section_names rest | None \<Rightarrow> section_names rest)"
  by (simp add: section_names_def List.map_filter_simps split: option.splits)

lemma section_names_append: "section_names (xs @ ys) = section_names xs @ section_names ys"
  by (induction xs) (auto simp: section_names_Nil section_names_Cons split: option.splits)

lemma section_names_no_header:
  "\<forall>l\<in>set body. header_name l = None \<Longrightarrow> section_names body = []"
  by (induction body) (auto simp: section_names_Nil section_names_Cons)

lemma header_name_in_names: "l \<in> set ls \<Longrightarrow> header_name l = Some n \<Longrightarrow> n \<in> set (section_names ls)"
  by (induction ls) (auto simp: section_names_Cons split: option.splits)

lemma names_have_header: "n \<in> set (section_names ls) \<Longrightarrow> \<exists>l\<in>set ls. header_name l = Some n"
  by (induction ls) (auto simp: section_names_Nil section_names_Cons split: option.splits)

lemma del_section_scan_other_headers:
  "section \<notin> Some ` set (section_names pre) \<Longrightarrow>
   del_section_scan section i None (pre @ r) = del_section_scan section (i + length pre) None r"
proof (induction pre arbitrary: i)
  case Nil
  then show ?case by simp
next
  case (Cons raw pre)
  from Cons.prems have rest: "section \<notin> Some ` set (section_names pre)"
    by (auto simp: section_names_Cons split: option.splits)
  from Cons.prems have here: "header_name raw \<noteq> section \<or> header_name raw = None"
    by (auto simp: section_names_Cons split: option.splits)
  show ?case
  proof (cases "header_name raw")
    case None
    then show ?thesis using Cons.IH [OF rest] by (simp add: header_name_def)
  next
    case (Some n)
    with here have "Some n \<noteq> section" by auto
    then show ?thesis using Some Cons.IH [OF rest] by (simp add: header_name_def)
  qed
qed

lemma del_section_scan_no_header:
  "\<forall>l\<in>set body. header_name l = None \<Longrightarrow>
   del_section_scan section i start (body @ r) = del_section_scan section (i + length body) start r"
  by (induction body arbitrary: i) (auto simp: header_name_def)

text \<open>
  C7. In a document whose section headers (the lines \<^verbatim>\<open>del_section\<close> takes for headers)
  have pairwise distinct names, \<^verbatim>\<open>del_section\<close> of a section that is there returns true
  and removes the header of that section and the lines after it up to, and without, the
  next header of any name, or up to the end when no header follows; of a section that is
  not there it returns false and leaves the document as it is.
\<close>

theorem del_section_scope:
  assumes dist: "distinct (section_names ls)"
  shows "(name \<in> set (section_names ls) \<longrightarrow>
            (\<exists>pre hdr body post.
               ls = pre @ hdr # body @ post
               \<and> header_name hdr = Some name
               \<and> (\<forall>l\<in>set body. header_name l = None)
               \<and> (post = [] \<or> (\<exists>next_name. header_name (hd post) = Some next_name))
               \<and> del_section (Some name) ls = (True, pre @ post)))
       \<and> (section \<notin> Some ` set (section_names ls) \<longrightarrow> del_section section ls = (False, ls))"
proof (intro conjI impI)
  assume "section \<notin> Some ` set (section_names ls)"
  then have "del_section_scan section 0 None (ls @ []) = del_section_scan section (0 + length ls) None []"
    by (rule del_section_scan_other_headers)
  then show "del_section section ls = (False, ls)"
    by (simp add: del_section_def)
next
  assume "name \<in> set (section_names ls)"
  then have "\<exists>l\<in>set ls. header_name l = Some name"
    by (rule names_have_header)
  then obtain pre hdr rest where
    ls: "ls = pre @ hdr # rest" and hdr: "header_name hdr = Some name"
    and pre: "\<forall>l\<in>set pre. header_name l \<noteq> Some name"
    by (auto simp: split_list_first_prop_iff)
  define body where "body = takeWhile (\<lambda>l. header_name l = None) rest"
  define post where "post = dropWhile (\<lambda>l. header_name l = None) rest"
  have rest: "rest = body @ post"
    by (simp add: body_def post_def)
  have body: "\<forall>l\<in>set body. header_name l = None"
    by (auto simp: body_def dest: set_takeWhileD)
  have pre_names: "Some name \<notin> Some ` set (section_names pre)"
    using pre names_have_header by fastforce
  have post_hd: "post \<noteq> [] \<Longrightarrow> \<exists>n. header_name (hd post) = Some n \<and> n \<noteq> name"
  proof -
    assume ne: "post \<noteq> []"
    then have "header_name (hd post) \<noteq> None"
      unfolding post_def using hd_dropWhile by blast
    then obtain n where n: "header_name (hd post) = Some n" by auto
    from ne have "hd post \<in> set post" by simp
    then have "n \<in> set (section_names post)" using n by (rule header_name_in_names)
    moreover from dist have "name \<notin> set (section_names post)"
      by (simp add: ls rest section_names_append section_names_Cons hdr)
    ultimately show ?thesis using n by auto
  qed
  have start: "del_section_scan (Some name) 0 None ls =
      del_section_scan (Some name) (Suc (length pre) + length body) (Some (length pre)) post"
  proof -
    have "del_section_scan (Some name) 0 None ls =
        del_section_scan (Some name) (0 + length pre) None (hdr # body @ post)"
      unfolding ls rest using pre_names by (rule del_section_scan_other_headers)
    also have "\<dots> = del_section_scan (Some name) (Suc (length pre)) (Some (length pre)) (body @ post)"
      using hdr by (simp add: header_name_def)
    also have "\<dots> = del_section_scan (Some name) (Suc (length pre) + length body) (Some (length pre)) post"
      using body by (rule del_section_scan_no_header)
    finally show ?thesis .
  qed
  have result: "del_section (Some name) ls = (True, pre @ post)"
  proof (cases post)
    case Nil
    then show ?thesis
      by (simp add: del_section_def start) (simp add: ls)
  next
    case (Cons p ps)
    with post_hd obtain n where "header_name p = Some n" "n \<noteq> name" by auto
    then have "del_section_scan (Some name) (Suc (length pre) + length body) (Some (length pre)) post
        = DelRange (length pre) (Suc (length pre) + length body)"
      by (simp add: Cons header_name_def)
    then show ?thesis
      by (simp add: del_section_def start) (simp add: ls rest)
  qed
  have "post = [] \<or> (\<exists>next_name. header_name (hd post) = Some next_name)"
    using post_hd by blast
  with ls rest hdr body result
  show "\<exists>pre hdr body post.
               ls = pre @ hdr # body @ post
               \<and> header_name hdr = Some name
               \<and> (\<forall>l\<in>set body. header_name l = None)
               \<and> (post = [] \<or> (\<exists>next_name. header_name (hd post) = Some next_name))
               \<and> del_section (Some name) ls = (True, pre @ post)"
    by blast
qed


theorem del_section_scope_witness:
  "distinct (section_names [''k=1'' @ [NL], ''[a]'' @ [NL], ''x = 1'' @ [NL], [NL], ''[b]'' @ [NL], ''z'' @ [NL]])
   \<and> ''a'' \<in> set (section_names [''k=1'' @ [NL], ''[a]'' @ [NL], ''x = 1'' @ [NL], [NL], ''[b]'' @ [NL], ''z'' @ [NL]])
   \<and> (\<exists>pre hdr body post.
         [''k=1'' @ [NL], ''[a]'' @ [NL], ''x = 1'' @ [NL], [NL], ''[b]'' @ [NL], ''z'' @ [NL]]
           = pre @ hdr # body @ post
         \<and> header_name hdr = Some ''a''
         \<and> (\<forall>l\<in>set body. header_name l = None)
         \<and> (post = [] \<or> (\<exists>next_name. header_name (hd post) = Some next_name))
         \<and> del_section (Some ''a'') [''k=1'' @ [NL], ''[a]'' @ [NL], ''x = 1'' @ [NL], [NL], ''[b]'' @ [NL], ''z'' @ [NL]]
             = (True, pre @ post))
   \<and> Some ''c'' \<notin> Some ` set (section_names [''k=1'' @ [NL], ''[a]'' @ [NL], ''x = 1'' @ [NL], [NL], ''[b]'' @ [NL], ''z'' @ [NL]])
   \<and> del_section (Some ''c'') [''k=1'' @ [NL], ''[a]'' @ [NL], ''x = 1'' @ [NL], [NL], ''[b]'' @ [NL], ''z'' @ [NL]]
       = (False, [''k=1'' @ [NL], ''[a]'' @ [NL], ''x = 1'' @ [NL], [NL], ''[b]'' @ [NL], ''z'' @ [NL]])"
proof -
  let ?doc = "[''k=1'' @ [NL], ''[a]'' @ [NL], ''x = 1'' @ [NL], [NL], ''[b]'' @ [NL], ''z'' @ [NL]]"
  have d: "distinct (section_names ?doc)" by code_simp
  have m: "''a'' \<in> set (section_names ?doc)" by code_simp
  have n: "Some ''c'' \<notin> Some ` set (section_names ?doc)" by code_simp
  from del_section_scope [OF d, of "''a''" "Some ''c''"] m n d show ?thesis by blast
qed

section \<open>What \<^verbatim>\<open>get_option\<close> returns\<close>

lemma get_scan_first_hit:
  assumes "classify l = Opt option val"
    and "section_after cur pre = section"
    and "\<forall>j<length pre. \<not> ((case classify (pre ! j) of Opt opt v \<Rightarrow> opt = option | _ \<Rightarrow> False)
            \<and> section_after cur (take j pre) = section)"
  shows "get_scan section option cur (pre @ l # post) = Some val"
  using assms
proof (induction pre arbitrary: cur)
  case Nil
  then show ?case by simp
next
  case (Cons p ps)
  define cur' where "cur' = section_after cur [p]"
  have after: "section_after cur (p # xs) = section_after cur' xs" for xs
    by (simp add: cur'_def split: line_kind.splits)
  have "section_after cur' ps = section"
    using Cons.prems(2) by (simp only: after)
  moreover have "\<forall>j<length ps. \<not> ((case classify (ps ! j) of Opt opt v \<Rightarrow> opt = option | _ \<Rightarrow> False)
            \<and> section_after cur' (take j ps) = section)"
  proof (intro allI impI)
    fix j assume "j < length ps"
    then have "Suc j < length (p # ps)" by simp
    with Cons.prems(3) have "\<not> ((case classify ((p # ps) ! Suc j) of Opt opt v \<Rightarrow> opt = option | _ \<Rightarrow> False)
            \<and> section_after cur (take (Suc j) (p # ps)) = section)"
      by blast
    then show "\<not> ((case classify (ps ! j) of Opt opt v \<Rightarrow> opt = option | _ \<Rightarrow> False)
            \<and> section_after cur' (take j ps) = section)"
      unfolding nth_Cons_Suc take_Suc_Cons after .
  qed
  ultimately have IH: "get_scan section option cur' (ps @ l # post) = Some val"
    using Cons.IH Cons.prems(1) by blast
  from Cons.prems(3) have here: "\<not> ((case classify p of Opt opt v \<Rightarrow> opt = option | _ \<Rightarrow> False)
            \<and> cur = section)"
    by fastforce
  show ?case
    using IH here by (auto simp: cur'_def split: line_kind.splits)
qed

text \<open>
  C9, as the code has it. When line \<open>i\<close> is the first option line of key \<open>option\<close> whose
  current section is \<open>section\<close>, \<^verbatim>\<open>get_option\<close> returns what \<^verbatim>\<open>rx_option\<close> captures after
  the \<^verbatim>\<open>=\<close> on that line once the line is stripped, and the document is the one it was
  called with. The white space at the end of the stored value goes with the strip.
\<close>

theorem get_option_first_hit:
  assumes hit: "option_at section option ls i"
    and first: "\<forall>j<i. \<not> option_at section option ls j"
  shows "\<exists>val. rx_option_match (strip (ls ! i)) = Some (option, val)
           \<and> get_option section option ls = (Some val, ls)"
proof -
  from hit have i: "i < length ls" and sec: "section_after None (take i ls) = section"
    by (simp_all add: option_at_def)
  from hit obtain val where cl: "classify (ls ! i) = Opt option val"
    by (auto simp: option_at_def split: line_kind.splits)
  have split: "ls = take i ls @ ls ! i # drop (Suc i) ls"
    using i by (simp add: id_take_nth_drop)
  have none: "\<forall>j<length (take i ls).
      \<not> ((case classify (take i ls ! j) of Opt opt v \<Rightarrow> opt = option | _ \<Rightarrow> False)
          \<and> section_after None (take j (take i ls)) = section)"
  proof (intro allI impI)
    fix j assume "j < length (take i ls)"
    then have j: "j < i" by simp
    with first have "\<not> option_at section option ls j" by blast
    with j i show "\<not> ((case classify (take i ls ! j) of Opt opt v \<Rightarrow> opt = option | _ \<Rightarrow> False)
          \<and> section_after None (take j (take i ls)) = section)"
      by (simp add: option_at_def min_def)
  qed
  have "get_scan section option None (take i ls @ ls ! i # drop (Suc i) ls) = Some val"
    using cl sec none by (rule get_scan_first_hit)
  with split have "get_scan section option None ls = Some val" by simp
  with cl show ?thesis
    by (auto simp: get_option_def dest: classify_Opt_rx)
qed

theorem get_option_first_hit_witness:
  "option_at (Some ''a'') ''x'' [''x = 0'' @ [NL], ''[a]'' @ [NL], ''y = 2'' @ [NL], ''x =  1  '' @ [NL], ''x = 3'' @ [NL]] 3
   \<and> (\<exists>val. rx_option_match (strip ([''x = 0'' @ [NL], ''[a]'' @ [NL], ''y = 2'' @ [NL], ''x =  1  '' @ [NL], ''x = 3'' @ [NL]] ! 3)) = Some (''x'', val)
       \<and> get_option (Some ''a'') ''x'' [''x = 0'' @ [NL], ''[a]'' @ [NL], ''y = 2'' @ [NL], ''x =  1  '' @ [NL], ''x = 3'' @ [NL]]
          = (Some val, [''x = 0'' @ [NL], ''[a]'' @ [NL], ''y = 2'' @ [NL], ''x =  1  '' @ [NL], ''x = 3'' @ [NL]]))"
proof -
  let ?doc = "[''x = 0'' @ [NL], ''[a]'' @ [NL], ''y = 2'' @ [NL], ''x =  1  '' @ [NL], ''x = 3'' @ [NL]]"
  have h: "option_at (Some ''a'') ''x'' ?doc 3" by code_simp
  have n0: "\<not> option_at (Some ''a'') ''x'' ?doc 0" by code_simp
  have n1: "\<not> option_at (Some ''a'') ''x'' ?doc 1" by code_simp
  have n2: "\<not> option_at (Some ''a'') ''x'' ?doc 2" by code_simp
  have f: "\<forall>j<3. \<not> option_at (Some ''a'') ''x'' ?doc j"
  proof (intro allI impI)
    fix j :: nat
    assume "j < 3"
    then consider "j = 0" | "j = 1" | "j = 2" by linarith
    then show "\<not> option_at (Some ''a'') ''x'' ?doc j"
      using n0 n1 n2 by cases blast+
  qed
  from get_option_first_hit [OF h f] h show ?thesis by blast
qed

text \<open>
  C9, as the claim has it, fails: on the stored line \<^verbatim>\<open>x = 1\<close> followed by two blanks,
  what the pattern captures is the value with its two blanks, and \<^verbatim>\<open>get_option\<close> returns
  the value without them.
\<close>

theorem get_option_trailing_space_counterexample:
  "fst (get_option (Some ''a'') ''x'' [''[a]'' @ [NL], ''x = 1  '' @ [NL]]) = Some ''1''
   \<and> rx_option_match (''x = 1  '' @ [NL]) = Some (''x'', ''1  '')"
  by code_simp

section \<open>A new option in a section whose header is the first line\<close>

text \<open>
  C1. The claim is that a new option of an existing section that another header follows
  goes inside the section, never before the section's own header. With the header of the
  section on line \<open>0\<close> and no option or comment in it, \<^verbatim>\<open>last_opt_line\<close> is \<open>0\<close> at the
  next header and \<^verbatim>\<open>ins_index\<close> is \<open>0\<close>: the option is written before the header
  \<^verbatim>\<open>[a]\<close>, a reader of the written file does not find it in the section, while the
  branch for a last section puts it after the header.
\<close>

theorem set_option_before_own_header:
  "writelines (set_option (Some ''a'') ''x'' ''1'' [''[a]'' @ [NL], ''[b]'' @ [NL]])
     = ''x = 1'' @ [NL] @ ''[a]'' @ [NL] @ ''[b]'' @ [NL]
   \<and> fst (get_option (Some ''a'') ''x''
        (readlines (writelines (set_option (Some ''a'') ''x'' ''1'' [''[a]'' @ [NL], ''[b]'' @ [NL]]))))
     = None
   \<and> writelines (set_option (Some ''a'') ''x'' ''1'' [''[a]'' @ [NL]])
     = ''[a]'' @ [NL] @ ''x = 1'' @ [NL]"
  by code_simp

section \<open>The order of the tests on a line\<close>







section \<open>What an operation leaves untouched\<close>






section \<open>A new section at the end of the document\<close>

lemma concat_chars: "concat (chars s) = s"
  by (induction s) (simp_all add: chars_def)

lemma chars_append: "chars (a @ b) = chars a @ chars b"
  by (simp add: chars_def)

lemma set_scan_absent:
  assumes "name \<notin> set (scan_names ls)" and "cur \<noteq> Some name"
  shows "\<exists>cur'. cur' \<noteq> Some name
           \<and> set_scan (Some name) option i cur seen ls
               = EndOfLines cur' (if i + length ls = 0 then 0 else i + length ls - 1)
                   (last_recorded_from i seen ls)"
  using assms
proof (induction ls arbitrary: i cur seen)
  case Nil
  then show ?case by simp
next
  case (Cons raw rest)
  show ?case
  proof (cases "classify raw")
    case Blank
    with Cons.prems have "name \<notin> set (scan_names rest)" by (simp add: scan_names_Cons)
    from Cons.IH [OF this Cons.prems(2), of "Suc i" seen] Blank show ?thesis
      by (simp add: recorded_def)
  next
    case Comment
    with Cons.prems have "name \<notin> set (scan_names rest)" by (simp add: scan_names_Cons)
    from Cons.IH [OF this Cons.prems(2), of "Suc i" i] Comment show ?thesis
      by (simp add: recorded_def)
  next
    case (Opt opt val)
    with Cons.prems have "name \<notin> set (scan_names rest)" by (simp add: scan_names_Cons)
    from Cons.IH [OF this Cons.prems(2), of "Suc i" i] Opt Cons.prems(2) show ?thesis
      by (simp add: recorded_def)
  next
    case (Header n)
    with Cons.prems have rest: "name \<notin> set (scan_names rest)" and n: "Some n \<noteq> Some name"
      by (auto simp: scan_names_Cons)
    from Cons.IH [OF rest n, of "Suc i" i] Header Cons.prems(2) show ?thesis
      by (simp add: recorded_def)
  next
    case Other
    with Cons.prems have "name \<notin> set (scan_names rest)" by (simp add: scan_names_Cons)
    from Cons.IH [OF this Cons.prems(2), of "Suc i" seen] Other show ?thesis
      by (simp add: recorded_def)
  qed
qed

text \<open>
  C6, as the code has it. For a document of no line or of two lines and more in which no
  header of the wanted section is scanned, \<^verbatim>\<open>set_option\<close> appends the header of the
  section and the formatted option line, and before them one blank line exactly when the
  document has lines and fewer than two lines follow the last comment, option or header
  line (line \<open>0\<close> when there is none), that is when \<^verbatim>\<open>lineno - last_opt_line < 2\<close>. What
  is appended enters \<^verbatim>\<open>self.lines\<close> one character an element; written out it is the
  text above. Documents of one line, where \<^verbatim>\<open>lineno > 0\<close> fails as it does for no
  line, are left out.
\<close>

theorem set_option_new_section:
  assumes absent: "name \<notin> set (scan_names ls)"
    and len: "length ls \<noteq> 1"
  shows "set_option (Some name) option val ls
           = ls @ chars ((if ls \<noteq> [] \<and> length ls < last_recorded ls + 3 then [NL] else [])
                         @ section_line (Some name) @ option_line option val)
       \<and> writelines (set_option (Some name) option val ls)
           = writelines ls
             @ (if ls \<noteq> [] \<and> length ls < last_recorded ls + 3 then [NL] else [])
             @ ''['' @ name @ '']'' @ [NL] @ option @ '' = '' @ val @ [NL]"
proof -
  have "None \<noteq> Some name" by simp
  with absent obtain cur' where cur': "cur' \<noteq> Some name"
    and scan: "set_scan (Some name) option 0 None 0 ls
        = EndOfLines cur' (if 0 + length ls = 0 then 0 else 0 + length ls - 1)
            (last_recorded_from 0 0 ls)"
    using set_scan_absent by blast
  have cond: "(0 < (if 0 + length ls = 0 then 0 else 0 + length ls - 1)
        \<and> int (if 0 + length ls = 0 then 0 else 0 + length ls - 1) - int (last_recorded ls) < 2)
      \<longleftrightarrow> (ls \<noteq> [] \<and> length ls < last_recorded ls + 3)"
    using len by (cases ls) auto
  have list: "set_option (Some name) option val ls
           = ls @ chars ((if ls \<noteq> [] \<and> length ls < last_recorded ls + 3 then [NL] else [])
                         @ section_line (Some name) @ option_line option val)"
    using cur' cond
    by (simp add: set_option_def scan chars_append last_recorded_def [symmetric])
      (simp add: chars_def)
  then have "writelines (set_option (Some name) option val ls)
           = writelines ls
             @ (if ls \<noteq> [] \<and> length ls < last_recorded ls + 3 then [NL] else [])
             @ section_line (Some name) @ option_line option val"
    by (simp add: writelines_def concat_chars)
  with list show ?thesis
    by (simp add: section_line_def option_line_def)
qed


theorem set_option_new_section_witness:
  "''s'' \<notin> set (scan_names [''# c'' @ [NL], ''y=2'' @ [NL], [NL]])
   \<and> length [''# c'' @ [NL], ''y=2'' @ [NL], [NL]] \<noteq> 1
   \<and> writelines (set_option (Some ''s'') ''x'' ''1'' [''# c'' @ [NL], ''y=2'' @ [NL], [NL]])
       = ''# c'' @ [NL] @ ''y=2'' @ [NL] @ [NL] @ [NL] @ ''[s]'' @ [NL] @ ''x = 1'' @ [NL]
   \<and> ''s'' \<notin> set (scan_names [''# c'' @ [NL], ''y=2'' @ [NL], [NL], [NL]])
   \<and> length [''# c'' @ [NL], ''y=2'' @ [NL], [NL], [NL]] \<noteq> 1
   \<and> writelines (set_option (Some ''s'') ''x'' ''1'' [''# c'' @ [NL], ''y=2'' @ [NL], [NL], [NL]])
       = ''# c'' @ [NL] @ ''y=2'' @ [NL] @ [NL] @ [NL] @ ''[s]'' @ [NL] @ ''x = 1'' @ [NL]"
proof -
  let ?d3 = "[''# c'' @ [NL], ''y=2'' @ [NL], [NL]]"
  let ?d4 = "[''# c'' @ [NL], ''y=2'' @ [NL], [NL], [NL]]"
  have a3: "''s'' \<notin> set (scan_names ?d3)" by code_simp
  have a4: "''s'' \<notin> set (scan_names ?d4)" by code_simp
  have l3: "length ?d3 \<noteq> 1" by simp
  have l4: "length ?d4 \<noteq> 1" by simp
  have r3: "last_recorded ?d3 = 1" by code_simp
  have r4: "last_recorded ?d4 = 1" by code_simp
  from set_option_new_section [OF a3 l3, of "''x''" "''1''", THEN conjunct2] r3
  have w3: "writelines (set_option (Some ''s'') ''x'' ''1'' ?d3)
       = ''# c'' @ [NL] @ ''y=2'' @ [NL] @ [NL] @ [NL] @ ''[s]'' @ [NL] @ ''x = 1'' @ [NL]"
    by (simp add: writelines_def)
  from set_option_new_section [OF a4 l4, of "''x''" "''1''", THEN conjunct2] r4
  have w4: "writelines (set_option (Some ''s'') ''x'' ''1'' ?d4)
       = ''# c'' @ [NL] @ ''y=2'' @ [NL] @ [NL] @ [NL] @ ''[s]'' @ [NL] @ ''x = 1'' @ [NL]"
    by (simp add: writelines_def)
  from a3 l3 w3 a4 l4 w4 show ?thesis by blast
qed

text \<open>
  C6, as the claim has it, fails in both directions: a document that ends with one blank
  line gets a second one, and a document that ends with two unclassified lines and no
  blank line gets none.
\<close>

theorem new_section_separator_counterexample:
  "classify [NL] = Blank
   \<and> writelines (set_option (Some ''s'') ''x'' ''1'' [''y=2'' @ [NL], [NL]])
       = ''y=2'' @ [NL] @ [NL] @ [NL] @ ''[s]'' @ [NL] @ ''x = 1'' @ [NL]
   \<and> classify (''zz'' @ [NL]) = Other
   \<and> writelines (set_option (Some ''s'') ''x'' ''1'' [''y=2'' @ [NL], ''zz'' @ [NL], ''zz'' @ [NL]])
       = ''y=2'' @ [NL] @ ''zz'' @ [NL] @ ''zz'' @ [NL] @ ''[s]'' @ [NL] @ ''x = 1'' @ [NL]"
  by code_simp

section \<open>Setting an option to the value it has\<close>

lemma rstrip_keep: "\<not> isspace c \<Longrightarrow> rstrip (xs @ c # t) = xs @ c # rstrip t"
  by (simp add: rstrip_def dropWhile_append)

lemma classify_Opt_key:
  assumes "classify raw = Opt opt val"
  shows "opt \<noteq> [] \<and> (\<forall>c\<in>set opt. keychar c) \<and> hd opt \<noteq> CHR ''#'' \<and> hd opt \<noteq> CHR '';''"
proof -
  from assms have rx: "rx_option_match (strip raw) = Some (opt, val)"
    by (rule classify_Opt_rx)
  then have opt: "opt = takeWhile keychar (strip raw)" and ne: "opt \<noteq> []"
    by (auto simp: rx_option_match_def Let_def split: if_splits list.splits)
  have all: "\<forall>c\<in>set opt. keychar c"
    unfolding opt by (auto dest: set_takeWhileD)
  from ne opt have hd: "hd opt = hd (strip raw)"
    by (cases "strip raw") (auto split: if_splits)
  from ne opt have sne: "strip raw \<noteq> []" by auto
  from assms sne have "\<not> startswith (strip raw) ''#''" "\<not> startswith (strip raw) '';''"
    by (auto simp: classify_def Let_def split: if_splits)
  with sne hd have "hd opt \<noteq> CHR ''#''" "hd opt \<noteq> CHR '';''"
    by (cases "strip raw"; simp add: startswith_def)+
  with ne all show ?thesis by blast
qed

lemma classify_option_line:
  assumes ne: "opt \<noteq> []" and all: "\<forall>c\<in>set opt. keychar c"
    and h1: "hd opt \<noteq> CHR ''#''" and h2: "hd opt \<noteq> CHR '';''"
  shows "\<exists>v. classify (option_line opt val) = Opt opt v"
proof -
  from ne obtain c cs where opt: "opt = c # cs" by (cases opt) auto
  with all have c: "\<not> isspace c" by (simp add: keychar_def)
  define w where "w = rstrip (CHR '' '' # val @ [NL])"
  have "lstrip (option_line opt val) = option_line opt val"
    using c by (simp add: lstrip_def option_line_def opt)
  moreover have "rstrip (option_line opt val) = opt @ CHR '' '' # CHR ''='' # w"
    using rstrip_keep [of "CHR ''=''" "opt @ '' ''" "CHR '' '' # val @ [NL]"]
    by (simp add: option_line_def w_def isspace_def)
  ultimately have strip: "strip (option_line opt val) = opt @ CHR '' '' # CHR ''='' # w"
    by (simp add: strip_def)
  have tk: "takeWhile keychar (opt @ CHR '' '' # CHR ''='' # w) = opt"
    using all by (simp add: takeWhile_append2 keychar_def isspace_def)
  have dk: "dropWhile keychar (opt @ CHR '' '' # CHR ''='' # w) = CHR '' '' # CHR ''='' # w"
    using all by (simp add: dropWhile_append2 keychar_def isspace_def)
  have "rx_option_match (opt @ CHR '' '' # CHR ''='' # w)
      = Some (opt, takeWhile (\<lambda>c. c \<noteq> NL) (dropWhile isspace w))"
    using ne by (simp add: rx_option_match_def tk dk) (simp add: isspace_def)
  moreover have "\<not> startswith (opt @ CHR '' '' # CHR ''='' # w) ''#''"
    "\<not> startswith (opt @ CHR '' '' # CHR ''='' # w) '';''"
    using h1 h2 by (simp_all add: startswith_def opt)
  ultimately have "classify (option_line opt val) = Opt opt (takeWhile (\<lambda>c. c \<noteq> NL) (dropWhile isspace w))"
    using ne by (simp add: classify_def strip)
  then show ?thesis by blast
qed

lemma get_scan_needs_section:
  "get_scan section option cur ls = Some v \<Longrightarrow>
   cur = section \<or> (\<exists>n. section = Some n \<and> n \<in> set (scan_names ls))"
proof (induction ls arbitrary: cur)
  case Nil
  then show ?case by simp
next
  case (Cons raw rest)
  show ?case
  proof (cases "classify raw")
    case (Header n)
    with Cons.prems have "get_scan section option (Some n) rest = Some v" by simp
    from Cons.IH [OF this] Header show ?thesis
      by (auto simp: scan_names_Cons)
  next
    case (Opt opt val)
    show ?thesis
    proof (cases "cur = section \<and> opt = option")
      case True
      then show ?thesis by simp
    next
      case False
      with Opt Cons.prems have "get_scan section option cur rest = Some v" by auto
      from Cons.IH [OF this] Opt show ?thesis
        by (auto simp: scan_names_Cons)
    qed
  next
    case Blank
    with Cons.prems have "get_scan section option cur rest = Some v" by simp
    from Cons.IH [OF this] Blank show ?thesis by (auto simp: scan_names_Cons)
  next
    case Comment
    with Cons.prems have "get_scan section option cur rest = Some v" by simp
    from Cons.IH [OF this] Comment show ?thesis by (auto simp: scan_names_Cons)
  next
    case Other
    with Cons.prems have "get_scan section option cur rest = Some v" by simp
    from Cons.IH [OF this] Other show ?thesis by (auto simp: scan_names_Cons)
  qed
qed

lemma set_scan_finds:
  assumes "get_scan section option cur ls = Some v"
    and "distinct (scan_names ls)"
    and "\<forall>n. cur = Some n \<longrightarrow> n \<notin> set (scan_names ls)"
  shows "\<exists>k v'. k < length ls \<and> classify (ls ! k) = Opt option v'
           \<and> set_scan section option i cur seen ls = Replace (i + k)"
  using assms
proof (induction ls arbitrary: i cur seen)
  case Nil
  then show ?case by simp
next
  case (Cons raw rest)
  have step: "\<exists>k v'. k < length (raw # rest) \<and> classify ((raw # rest) ! k) = Opt option v'
           \<and> set_scan section option i cur seen (raw # rest) = Replace (i + k)"
    if same: "set_scan section option i cur seen (raw # rest) = set_scan section option (Suc i) cur' seen' rest"
      and g: "get_scan section option cur' rest = Some v"
      and d: "distinct (scan_names rest)"
      and inv: "\<forall>n. cur' = Some n \<longrightarrow> n \<notin> set (scan_names rest)"
    for cur' seen'
  proof -
    from Cons.IH [OF g d inv, of "Suc i" seen'] obtain k v' where
      "k < length rest" "classify (rest ! k) = Opt option v'"
      "set_scan section option (Suc i) cur' seen' rest = Replace (Suc i + k)"
      by blast
    then have "Suc k < length (raw # rest) \<and> classify ((raw # rest) ! Suc k) = Opt option v'
        \<and> set_scan section option i cur seen (raw # rest) = Replace (i + Suc k)"
      using same by simp
    then show ?thesis by blast
  qed
  show ?case
  proof (cases "classify raw")
    case (Header n)
    from Header Cons.prems(1) have g: "get_scan section option (Some n) rest = Some v" by simp
    from Header Cons.prems(2) have d: "distinct (scan_names rest)" and n: "n \<notin> set (scan_names rest)"
      by (simp_all add: scan_names_Cons)
    have neq: "cur \<noteq> section"
    proof
      assume eq: "cur = section"
      from get_scan_needs_section [OF g]
      have "section = Some n \<or> (\<exists>m. section = Some m \<and> m \<in> set (scan_names rest))" by auto
      then obtain m where "cur = Some m" "m \<in> set (scan_names (raw # rest))"
        using eq Header by (auto simp: scan_names_Cons)
      with Cons.prems(3) show False by blast
    qed
    have "set_scan section option i cur seen (raw # rest) = set_scan section option (Suc i) (Some n) i rest"
      using Header neq by simp
    from step [OF this g d] n show ?thesis by blast
  next
    case (Opt opt val)
    show ?thesis
    proof (cases "cur = section \<and> opt = option")
      case True
      with Opt have "0 < length (raw # rest) \<and> classify ((raw # rest) ! 0) = Opt option val
          \<and> set_scan section option i cur seen (raw # rest) = Replace (i + 0)"
        by simp
      then show ?thesis by blast
    next
      case False
      with Opt Cons.prems(1) have g: "get_scan section option cur rest = Some v" by auto
      from Opt Cons.prems(2,3) have d: "distinct (scan_names rest)"
        and inv: "\<forall>n. cur = Some n \<longrightarrow> n \<notin> set (scan_names rest)"
        by (simp_all add: scan_names_Cons)
      have "set_scan section option i cur seen (raw # rest) = set_scan section option (Suc i) cur i rest"
        using Opt False by auto
      from step [OF this g d inv] show ?thesis .
    qed
  next
    case Blank
    with Cons.prems(1) have g: "get_scan section option cur rest = Some v" by simp
    from Blank Cons.prems(2,3) have d: "distinct (scan_names rest)"
      and inv: "\<forall>n. cur = Some n \<longrightarrow> n \<notin> set (scan_names rest)"
      by (simp_all add: scan_names_Cons)
    have "set_scan section option i cur seen (raw # rest) = set_scan section option (Suc i) cur seen rest"
      using Blank by simp
    from step [OF this g d inv] show ?thesis .
  next
    case Comment
    with Cons.prems(1) have g: "get_scan section option cur rest = Some v" by simp
    from Comment Cons.prems(2,3) have d: "distinct (scan_names rest)"
      and inv: "\<forall>n. cur = Some n \<longrightarrow> n \<notin> set (scan_names rest)"
      by (simp_all add: scan_names_Cons)
    have "set_scan section option i cur seen (raw # rest) = set_scan section option (Suc i) cur i rest"
      using Comment by simp
    from step [OF this g d inv] show ?thesis .
  next
    case Other
    with Cons.prems(1) have g: "get_scan section option cur rest = Some v" by simp
    from Other Cons.prems(2,3) have d: "distinct (scan_names rest)"
      and inv: "\<forall>n. cur = Some n \<longrightarrow> n \<notin> set (scan_names rest)"
      by (simp_all add: scan_names_Cons)
    have "set_scan section option i cur seen (raw # rest) = set_scan section option (Suc i) cur seen rest"
      using Other by simp
    from step [OF this g d inv] show ?thesis .
  qed
qed

lemma set_scan_replace_stable:
  assumes "set_scan section option i cur seen ls = Replace (i + k)"
    and "k < length ls"
    and "classify c = Opt option v"
  shows "set_scan section option i cur seen (ls[k := c]) = Replace (i + k)"
  using assms
proof (induction ls arbitrary: i cur seen k)
  case Nil
  then show ?case by simp
next
  case (Cons raw rest)
  have later: "set_scan section option (Suc i) cur' seen' rest \<noteq> Replace i" for cur' seen'
    using set_scan_Replace_bound [of _ _ "Suc i" cur' seen' rest i] by auto
  show ?case
  proof (cases k)
    case 0
    with Cons.prems(1) later have "\<exists>val. classify raw = Opt option val \<and> cur = section"
      by (auto split: line_kind.splits if_splits)
    with 0 Cons.prems(3) show ?thesis by auto
  next
    case (Suc k')
    with Cons.prems(1) obtain cur' seen' where
      same: "\<And>xs. set_scan section option i cur seen (raw # xs) = set_scan section option (Suc i) cur' seen' xs"
      by (cases "classify raw") (auto split: if_splits)
    from Cons.prems(1) have "set_scan section option (Suc i) cur' seen' rest = Replace (Suc i + k')"
      by (simp only: same Suc) simp
    moreover from Cons.prems(2) Suc have "k' < length rest" by simp
    ultimately have "set_scan section option (Suc i) cur' seen' (rest[k' := c]) = Replace (Suc i + k')"
      using Cons.IH Cons.prems(3) by blast
    then show ?thesis
      by (simp add: Suc same del: set_scan.simps)
  qed
qed

text \<open>
  C3, as the code has it. In a document whose scanned section headers have pairwise
  distinct names, when \<^verbatim>\<open>get_option\<close> returns \<open>val\<close>, a second \<^verbatim>\<open>set_option\<close> with the
  same arguments writes the bytes the first one wrote: both replace the line
  \<^verbatim>\<open>get_option\<close> found by the formatted option line.
\<close>

theorem set_option_idempotent:
  assumes dist: "distinct (scan_names ls)"
    and cur: "fst (get_option section option ls) = Some val"
  shows "writelines (set_option section option val (set_option section option val ls))
           = writelines (set_option section option val ls)"
proof -
  from cur have g: "get_scan section option None ls = Some val"
    by (simp add: get_option_def)
  have "\<forall>n. (None :: string option) = Some n \<longrightarrow> n \<notin> set (scan_names ls)" by simp
  with g dist obtain k v' where k: "k < length ls"
    and cl: "classify (ls ! k) = Opt option v'"
    and scan: "set_scan section option 0 None 0 ls = Replace (0 + k)"
    using set_scan_finds by blast
  from cl have "option \<noteq> [] \<and> (\<forall>c\<in>set option. keychar c)
      \<and> hd option \<noteq> CHR ''#'' \<and> hd option \<noteq> CHR '';''"
    by (rule classify_Opt_key)
  then obtain v'' where line: "classify (option_line option val) = Opt option v''"
    using classify_option_line by blast
  have first: "set_option section option val ls = ls[k := option_line option val]"
    using scan by (simp add: set_option_def)
  have "set_scan section option 0 None 0 (ls[k := option_line option val]) = Replace (0 + k)"
    using scan k line by (rule set_scan_replace_stable)
  then have "set_option section option val (ls[k := option_line option val])
      = ls[k := option_line option val]"
    by (simp add: set_option_def)
  then show ?thesis by (simp add: first)
qed


theorem set_option_idempotent_witness:
  "distinct (scan_names [''# c'' @ [NL], ''[a]'' @ [NL], ''x=1  '' @ [NL], ''[b]'' @ [NL]])
   \<and> fst (get_option (Some ''a'') ''x'' [''# c'' @ [NL], ''[a]'' @ [NL], ''x=1  '' @ [NL], ''[b]'' @ [NL]])
       = Some ''1''
   \<and> writelines (set_option (Some ''a'') ''x'' ''1''
        (set_option (Some ''a'') ''x'' ''1'' [''# c'' @ [NL], ''[a]'' @ [NL], ''x=1  '' @ [NL], ''[b]'' @ [NL]]))
       = writelines (set_option (Some ''a'') ''x'' ''1''
           [''# c'' @ [NL], ''[a]'' @ [NL], ''x=1  '' @ [NL], ''[b]'' @ [NL]])"
proof -
  let ?doc = "[''# c'' @ [NL], ''[a]'' @ [NL], ''x=1  '' @ [NL], ''[b]'' @ [NL]]"
  have d: "distinct (scan_names ?doc)" by code_simp
  have g: "fst (get_option (Some ''a'') ''x'' ?doc) = Some ''1''" by code_simp
  from set_option_idempotent [OF d g] d g show ?thesis by blast
qed

text \<open>
  C3, as the claim has it, fails when the section has two headers and the option stands
  under the second: \<^verbatim>\<open>get_option\<close> finds the value, \<^verbatim>\<open>set_option\<close> leaves the scan at the
  header that ends the first occurrence of the section and inserts a new line, and the
  second call inserts one more.
\<close>

theorem set_option_twice_counterexample:
  "fst (get_option (Some ''a'') ''x'' [''[a]'' @ [NL], ''[b]'' @ [NL], ''[a]'' @ [NL], ''x = 1'' @ [NL]])
     = Some ''1''
   \<and> writelines (set_option (Some ''a'') ''x'' ''1''
        [''[a]'' @ [NL], ''[b]'' @ [NL], ''[a]'' @ [NL], ''x = 1'' @ [NL]])
     = ''x = 1'' @ [NL] @ ''[a]'' @ [NL] @ ''[b]'' @ [NL] @ ''[a]'' @ [NL] @ ''x = 1'' @ [NL]
   \<and> writelines (set_option (Some ''a'') ''x'' ''1''
        (set_option (Some ''a'') ''x'' ''1''
           [''[a]'' @ [NL], ''[b]'' @ [NL], ''[a]'' @ [NL], ''x = 1'' @ [NL]]))
     = ''x = 1'' @ [NL] @ ''[a]'' @ [NL] @ ''x = 1'' @ [NL] @ ''[b]'' @ [NL] @ ''[a]'' @ [NL]
       @ ''x = 1'' @ [NL]"
  by code_simp

end
